theory Spec2Isabelle
  imports Main
begin

section \<open>The prototype board of main.js\<close>

text \<open>
  main.js keeps one global \<open>grid\<close>, an array of \<open>gridSize\<close> rows of
  \<open>gridSize\<close> numbers, built once (line 3) and afterwards only written at
  positions that were read before. The value \<open>0\<close> is the free cell. A grid is a
  list of rows; the mutation of the global becomes a grid passed in and returned.
\<close>

definition gridSize :: int where
  "gridSize = 6"

type_synonym grid = "int list list"

text \<open>
  How a run can end other than normally. \<open>TypeError\<close> is what JavaScript raises when
  an index is applied to \<open>undefined\<close>. \<open>UndefinedCell\<close> is not a JavaScript
  error: it marks the one place where the model stops following the source (see \<open>visit\<close>),
  which no 6 by 6 grid reaches.
\<close>

datatype error = TypeError | UndefinedCell

definition wf_grid :: "grid \<Rightarrow> bool" where
  "wf_grid g = (length g = nat gridSize \<and> list_all (\<lambda>r. length r = nat gridSize) g)"

text \<open>\<open>grid[j]\<close>: the row, or \<open>undefined\<close> (\<open>None\<close>) outside the array.\<close>

definition row_at :: "grid \<Rightarrow> int \<Rightarrow> int list option" where
  "row_at g j = (if 0 \<le> j \<and> nat j < length g then Some (g ! nat j) else None)"

text \<open>\<open>row[i]\<close>: the number, or \<open>undefined\<close> (\<open>None\<close>) outside the row.\<close>

definition elem_at :: "int list \<Rightarrow> int \<Rightarrow> int option" where
  "elem_at r i = (if 0 \<le> i \<and> nat i < length r then Some (r ! nat i) else None)"

text \<open>
  \<open>grid[y][x]\<close> with no guard, as lines 27 and 38 read it: indexing the
  \<open>undefined\<close> row raises a TypeError, a column outside an existing row gives
  \<open>undefined\<close>.
\<close>

definition read_cell :: "grid \<Rightarrow> int \<Rightarrow> int \<Rightarrow> error + int option" where
  "read_cell g x y = (case row_at g y of None \<Rightarrow> Inl TypeError | Some r \<Rightarrow> Inr (elem_at r x))"

text \<open>
  The guarded read \<open>grid[y] && grid[y][x]\<close> of line 44: a missing row short-circuits to
  \<open>undefined\<close> instead of raising.
\<close>

definition cell_at :: "grid \<Rightarrow> int \<Rightarrow> int \<Rightarrow> int option" where
  "cell_at g x y = (case row_at g y of None \<Rightarrow> None | Some r \<Rightarrow> elem_at r x)"

text \<open>
  \<open>grid[y][x] = v\<close>. Every write of the program goes to a position whose read succeeded
  (lines 29, 49, 50); on any other position the model leaves the grid as it is.
\<close>

definition set_cell :: "grid \<Rightarrow> int \<Rightarrow> int \<Rightarrow> int \<Rightarrow> grid" where
  "set_cell g x y v =
     (case cell_at g x y of
        None \<Rightarrow> g
      | Some _ \<Rightarrow> g[nat y := (g ! nat y)[nat x := v]])"

text \<open>The four offsets of line 43, in the order the source lists them.\<close>

definition directions :: "(int \<times> int) list" where
  "directions = [(1, 0), (-1, 0), (0, 1), (0, -1)]"

text \<open>
  Lines 41 to 46: the cell itself, followed by each neighbour whose guarded read is strictly
  equal to \<open>val\<close>.
\<close>

definition sameTiles :: "grid \<Rightarrow> int \<Rightarrow> int \<Rightarrow> int \<Rightarrow> (int \<times> int) list" where
  "sameTiles g x y val =
     (x, y) # map (\<lambda>(dx, dy). (x + dx, y + dy))
                (filter (\<lambda>(dx, dy). cell_at g (x + dx) (y + dy) = Some val) directions)"

text \<open>Lines 49 and 50: every listed cell is set to 0, then the scanned cell to \<open>val + 1\<close>.\<close>

definition collapse :: "grid \<Rightarrow> int \<Rightarrow> int \<Rightarrow> int \<Rightarrow> (int \<times> int) list \<Rightarrow> grid" where
  "collapse g x y val same =
     set_cell (fold (\<lambda>(xx, yy) h. set_cell h xx yy 0) same g) x y (val + 1)"

text \<open>
  The body of the inner loop (lines 38 to 52) on the state \<open>(grid, merged)\<close>. A
  scanned cell that reads \<open>undefined\<close> exists only in a row shorter than
  \<open>gridSize\<close>, which line 3 never builds; JavaScript would go on with
  \<open>NaN\<close> there, the integer model stops with \<open>UndefinedCell\<close>.
\<close>

definition visit :: "grid \<times> bool \<Rightarrow> int \<Rightarrow> int \<Rightarrow> error + grid \<times> bool" where
  "visit s x y =
     (case read_cell (fst s) x y of
        Inl e \<Rightarrow> Inl e
      | Inr None \<Rightarrow> Inl UndefinedCell
      | Inr (Some val) \<Rightarrow>
          if val = 0 then Inr s
          else let same = sameTiles (fst s) x y val
               in if 3 \<le> length same then Inr (collapse (fst s) x y val same, True)
                  else Inr s)"

text \<open>The scan order of lines 36 and 37: rows from the top, each row from the left.\<close>

definition cells :: "(int \<times> int) list" where
  "cells = concat (map (\<lambda>y. map (\<lambda>x. (x, y)) [0..gridSize - 1]) [0..gridSize - 1])"

fun scan_cells :: "(int \<times> int) list \<Rightarrow> grid \<times> bool \<Rightarrow> error + grid \<times> bool" where
  "scan_cells [] s = Inr s"
| "scan_cells (c # cs) s =
     (case visit s (fst c) (snd c) of Inl e \<Rightarrow> Inl e | Inr s' \<Rightarrow> scan_cells cs s')"

text \<open>The number of cells that hold something other than 0.\<close>

definition occupied :: "grid \<Rightarrow> nat" where
  "occupied g = sum_list (map (\<lambda>r. length (filter (\<lambda>v. v \<noteq> 0) r)) g)"

subsection \<open>Writes, groups and the count of occupied cells\<close>

text \<open>
  What a collapse does to the cells and to their count; the merge pass below ends because of it.
\<close>

lemma cell_at_set_cell:
  "cell_at (set_cell g x y v) x' y' =
     (if x' = x \<and> y' = y \<and> cell_at g x y \<noteq> None then Some v else cell_at g x' y')"
  by (auto simp: set_cell_def cell_at_def row_at_def elem_at_def nth_list_update
           split: option.splits if_splits)

lemma shape_set_cell: "map length (set_cell g x y v) = map length g"
  by (auto simp: set_cell_def cell_at_def row_at_def elem_at_def map_update list_update_same_conv
           split: option.splits if_splits)

lemma wf_grid_shape:
  "wf_grid g = (length (map length g) = nat gridSize \<and> (\<forall>n\<in>set (map length g). n = nat gridSize))"
  by (auto simp: wf_grid_def list_all_iff)

lemma wf_grid_set_cell: "wf_grid (set_cell g x y v) = wf_grid g"
  unfolding wf_grid_shape shape_set_cell ..

lemma count_update:
  "i < length r \<Longrightarrow>
   length (filter P (r[i := v])) + (if P (r ! i) then 1 else 0)
     = length (filter P r) + (if P v then 1 else 0)"
proof (induction r arbitrary: i)
  case Nil then show ?case by simp
next
  case (Cons a r)
  then show ?case by (cases i) auto
qed

lemma sum_list_update_nat:
  "i < length (ns :: nat list) \<Longrightarrow> sum_list (ns[i := n]) + ns ! i = sum_list ns + n"
proof (induction ns arbitrary: i)
  case Nil then show ?case by simp
next
  case (Cons a ns)
  then show ?case by (cases i) auto
qed

lemma occupied_set_cell:
  assumes "cell_at g x y = Some old"
  shows "occupied (set_cell g x y v) + (if old \<noteq> 0 then 1 else 0)
           = occupied g + (if v \<noteq> 0 then 1 else 0)"
proof -
  let ?cnt = "\<lambda>r. length (filter (\<lambda>v. v \<noteq> (0::int)) r)"
  from assms have y: "0 \<le> y" "nat y < length g" and x: "0 \<le> x" "nat x < length (g ! nat y)"
    and old: "g ! nat y ! nat x = old"
    by (auto simp: cell_at_def row_at_def elem_at_def split: option.splits if_splits)
  let ?r = "g ! nat y"
  have sc: "set_cell g x y v = g[nat y := ?r[nat x := v]]"
    using assms by (simp add: set_cell_def)
  have "occupied (set_cell g x y v) = sum_list ((map ?cnt g)[nat y := ?cnt (?r[nat x := v])])"
    by (simp add: occupied_def sc map_update)
  moreover have "sum_list ((map ?cnt g)[nat y := ?cnt (?r[nat x := v])]) + ?cnt ?r
      = occupied g + ?cnt (?r[nat x := v])"
    using sum_list_update_nat[of "nat y" "map ?cnt g" "?cnt (?r[nat x := v])"] y
    by (simp add: occupied_def)
  moreover have "?cnt (?r[nat x := v]) + (if old \<noteq> 0 then 1 else 0) = ?cnt ?r + (if v \<noteq> 0 then 1 else 0)"
    using count_update[of "nat x" ?r "\<lambda>v. v \<noteq> 0" v] x old by simp
  ultimately show ?thesis by linarith
qed

lemma sameTiles_distinct: "distinct (sameTiles g x y val)"
  by (auto simp: sameTiles_def directions_def)

lemma sameTiles_cells:
  assumes "cell_at g x y = Some val" "p \<in> set (sameTiles g x y val)"
  shows "cell_at g (fst p) (snd p) = Some val"
  using assms by (auto simp: sameTiles_def)

lemma sameTiles_length: "length (sameTiles g x y val) \<le> 5"
proof -
  have "length (filter P directions) \<le> 4" for P
    using length_filter_le[of P directions] by (simp add: directions_def)
  then show ?thesis by (simp add: sameTiles_def)
qed

lemma clear_cell_at:
  "cell_at (fold (\<lambda>(xx, yy) h. set_cell h xx yy 0) ps g) x' y' =
     (if (x', y') \<in> set ps \<and> cell_at g x' y' \<noteq> None then Some 0 else cell_at g x' y')"
proof (induction ps arbitrary: g)
  case Nil then show ?case by simp
next
  case (Cons p ps)
  obtain a b where p: "p = (a, b)" by (cases p)
  show ?case by (auto simp: p Cons.IH cell_at_set_cell)
qed

lemma clear_occupied:
  assumes "distinct ps" "\<forall>p\<in>set ps. cell_at g (fst p) (snd p) = Some val" "val \<noteq> 0"
  shows "occupied (fold (\<lambda>(xx, yy) h. set_cell h xx yy 0) ps g) + length ps = occupied g"
  using assms
proof (induction ps arbitrary: g)
  case Nil then show ?case by simp
next
  case (Cons p ps)
  obtain a b where p: "p = (a, b)" by (cases p)
  have here: "cell_at g a b = Some val" using Cons.prems(2) by (simp add: p)
  have rest: "\<forall>q\<in>set ps. cell_at (set_cell g a b 0) (fst q) (snd q) = Some val"
    using Cons.prems(1,2) by (auto simp: p cell_at_set_cell)
  have "occupied (fold (\<lambda>(xx, yy) h. set_cell h xx yy 0) ps (set_cell g a b 0)) + length ps
          = occupied (set_cell g a b 0)"
    using Cons.IH[OF _ rest] Cons.prems(1,3) by simp
  moreover have "occupied (set_cell g a b 0) + 1 = occupied g"
    using occupied_set_cell[OF here, of 0] Cons.prems(3) by simp
  ultimately show ?case by (simp add: p)
qed

lemma collapse_cell_at:
  assumes "cell_at g x y = Some val"
  shows "cell_at (collapse g x y val (sameTiles g x y val)) x' y' =
           (if x' = x \<and> y' = y then Some (val + 1)
            else if (x', y') \<in> set (sameTiles g x y val) then Some 0
            else cell_at g x' y')"
  using assms sameTiles_cells[OF assms, of "(x', y')"]
  by (auto simp: collapse_def cell_at_set_cell clear_cell_at)

lemma collapse_occupied:
  assumes "cell_at g x y = Some val" "val \<noteq> 0"
  shows "occupied (collapse g x y val (sameTiles g x y val)) + length (sameTiles g x y val)
           = occupied g + (if val + 1 \<noteq> 0 then 1 else 0)"
proof -
  let ?same = "sameTiles g x y val"
  let ?h = "fold (\<lambda>(xx, yy) h. set_cell h xx yy 0) ?same g"
  have c: "occupied ?h + length ?same = occupied g"
    using clear_occupied[where ps="?same" and g=g and val=val] sameTiles_distinct[of g x y val]
      sameTiles_cells[OF assms(1)] assms(2)
    by blast
  have "(x, y) \<in> set ?same" by (simp add: sameTiles_def)
  then have "cell_at ?h x y = Some 0"
    using assms(1) by (simp add: clear_cell_at)
  from occupied_set_cell[OF this, of "val + 1"]
  have "occupied (collapse g x y val ?same) = occupied ?h + (if val + 1 \<noteq> 0 then 1 else 0)"
    by (simp add: collapse_def)
  with c show ?thesis by linarith
qed

lemma collapse_shape: "map length (collapse g x y val same) = map length g"
proof -
  have "map length (fold (\<lambda>(xx, yy) h. set_cell h xx yy 0) ps g) = map length g" for ps
    by (induction ps arbitrary: g) (auto simp: shape_set_cell)
  then show ?thesis by (simp add: collapse_def shape_set_cell)
qed

lemma visit_cases:
  assumes "visit (g, m) x y = Inr (g', m')"
  obtains (skip) "g' = g" "m' = m"
    | (merge) val where "cell_at g x y = Some val" "val \<noteq> 0"
        "3 \<le> length (sameTiles g x y val)"
        "g' = collapse g x y val (sameTiles g x y val)" "m'"
  using assms
  by (auto simp: visit_def read_cell_def cell_at_def Let_def
           split: option.splits sum.splits if_splits)

lemma visit_occupied:
  assumes "visit (g, m) x y = Inr (g', m')"
  shows "(g' = g \<and> m' = m) \<or> (m' \<and> occupied g' + 2 \<le> occupied g)"
  using assms
proof (cases rule: visit_cases)
  case skip then show ?thesis by simp
next
  case (merge val)
  from collapse_occupied[OF merge(1,2)] merge(3,4,5) show ?thesis
    by (auto split: if_splits)
qed

lemma scan_cells_occupied:
  assumes "scan_cells cs (g, m) = Inr (g', m')"
  shows "(g' = g \<and> m' = m) \<or> (m' \<and> occupied g' + 2 \<le> occupied g)"
  using assms
proof (induction cs arbitrary: g m)
  case Nil then show ?case by simp
next
  case (Cons c cs)
  from Cons.prems obtain g1 m1 where v: "visit (g, m) (fst c) (snd c) = Inr (g1, m1)"
    and r: "scan_cells cs (g1, m1) = Inr (g', m')"
    by (auto split: sum.splits)
  from visit_occupied[OF v] Cons.IH[OF r] show ?case by auto
qed

subsection \<open>The merge pass and the click handler\<close>

text \<open>
  Lines 34 to 57: one scan of all cells with \<open>merged\<close> starting as false, and the
  same again for as long as a scan collapsed something. The recursion ends because a collapse
  lowers the count of occupied cells, which the termination proof uses.
\<close>

function mergeTiles :: "grid \<Rightarrow> error + grid" where
  "mergeTiles g =
     (case scan_cells cells (g, False) of
        Inl e \<Rightarrow> Inl e
      | Inr (g', merged) \<Rightarrow> if merged then mergeTiles g' else Inr g')"
  by pat_completeness auto
termination
proof (relation "measure occupied")
  show "wf (measure occupied)" by simp
next
  fix g :: grid and s g' and merged :: bool
  assume "scan_cells cells (g, False) = Inr s" "(g', merged) = s" "merged"
  then have "scan_cells cells (g, False) = Inr (g', True)" by simp
  from scan_cells_occupied[OF this] show "(g', g) \<in> measure occupied" by auto
qed

text \<open>The coordinates the two loops run over.\<close>

definition in_bounds :: "int \<Rightarrow> int \<Rightarrow> bool" where
  "in_bounds x y = (0 \<le> x \<and> x < gridSize \<and> 0 \<le> y \<and> y < gridSize)"

text \<open>
  The test of lines 39 and 48 on the cell at \<open>(x, y)\<close>: it is not 0 and its list
  \<open>sameTiles\<close> has at least three entries.
\<close>

definition qualifies :: "grid \<Rightarrow> int \<Rightarrow> int \<Rightarrow> bool" where
  "qualifies g x y =
     (case cell_at g x y of
        None \<Rightarrow> False
      | Some val \<Rightarrow> val \<noteq> 0 \<and> 3 \<le> length (sameTiles g x y val))"

text \<open>
  Lines 22 to 24. The argument is the outcome of the comparison \<open>Math.random() < 0.8\<close>;
  1 is grass and 2 is bush.
\<close>

definition getRandomTile :: "bool \<Rightarrow> int" where
  "getRandomTile below = (if below then 1 else 2)"

text \<open>
  What a call gives back. \<open>handleClick\<close> leaves through a bare \<open>return\<close> (line 27) or
  by running off its end (line 32); both give \<open>undefined\<close>, and the function produces
  no other value.
\<close>

datatype jsvalue = Undefined

text \<open>
  Lines 26 to 32, giving the value returned and the grid the call leaves behind. The read of
  line 27 has no guard, so a row outside the grid raises; any value other than 0 (also
  \<open>undefined\<close>) returns at once. \<open>createGrid\<close> (lines 5 to 20) rebuilds the page
  from the grid and writes nothing to it; it is left out.
\<close>

definition handleClick :: "grid \<Rightarrow> int \<Rightarrow> int \<Rightarrow> bool \<Rightarrow> error + jsvalue \<times> grid" where
  "handleClick g x y below =
     (case read_cell g x y of
        Inl e \<Rightarrow> Inl e
      | Inr v \<Rightarrow>
          if v \<noteq> Some 0 then Inr (Undefined, g)
          else (case mergeTiles (set_cell g x y (getRandomTile below)) of
                  Inl e \<Rightarrow> Inl e
                | Inr g' \<Rightarrow> Inr (Undefined, g')))"

text \<open>Line 3: the grid the program starts with, \<open>gridSize\<close> rows of \<open>gridSize\<close> zeros.\<close>

definition initialGrid :: grid where
  "initialGrid = replicate (nat gridSize) (replicate (nat gridSize) 0)"

text \<open>
  A run of the program: one click after the other, each with the outcome of its random draw.
  A click that raises ends the run.
\<close>

fun clicks :: "grid \<Rightarrow> (int \<times> int \<times> bool) list \<Rightarrow> error + grid" where
  "clicks g [] = Inr g"
| "clicks g (c # cs) =
     (case handleClick g (fst c) (fst (snd c)) (snd (snd c)) of
        Inl e \<Rightarrow> Inl e
      | Inr r \<Rightarrow> clicks (snd r) cs)"

text \<open>
  The grids the program can hold between two clicks. The only call of \<open>handleClick\<close> is
  the listener of line 16, which passes the loop indices of lines 7 and 8, so every click has
  both coordinates from 0 to \<open>gridSize - 1\<close>.
\<close>

inductive arises :: "grid \<Rightarrow> bool" where
  initial: "arises initialGrid"
| click: "arises g \<Longrightarrow> in_bounds x y \<Longrightarrow> handleClick g x y below = Inr (r, g')
          \<Longrightarrow> arises g'"

section \<open>The view (App.js)\<close>

text \<open>
  The React view receives the board from the server as numbers and looks each one up in
  \<open>ITEM_TYPES\<close> (lines 9 to 22). An entry is kept with its name and colour; the
  emoji, which is not ASCII, is left out.
\<close>

record item =
  name :: string
  color :: string

text \<open>
  The table in the order \<open>Object.entries\<close> lists it: the keys 0 to 7 ascending, then the
  negative keys as written.
\<close>

definition ITEM_TYPES :: "(int \<times> item) list" where
  "ITEM_TYPES =
     [(0, \<lparr>name = ''grass'', color = ''#4ade80''\<rparr>),
      (1, \<lparr>name = ''bush'', color = ''#22c55e''\<rparr>),
      (2, \<lparr>name = ''tree'', color = ''#16a34a''\<rparr>),
      (3, \<lparr>name = ''house'', color = ''#dc2626''\<rparr>),
      (4, \<lparr>name = ''mansion'', color = ''#7c2d12''\<rparr>),
      (5, \<lparr>name = ''castle'', color = ''#7c3aed''\<rparr>),
      (6, \<lparr>name = ''crystal'', color = ''#06b6d4''\<rparr>),
      (7, \<lparr>name = ''monument'', color = ''#fbbf24''\<rparr>),
      (- 1, \<lparr>name = ''bear'', color = ''#92400e''\<rparr>),
      (- 2, \<lparr>name = ''tombstone'', color = ''#6b7280''\<rparr>),
      (- 3, \<lparr>name = ''rock'', color = ''#374151''\<rparr>),
      (- 99, \<lparr>name = ''empty'', color = ''#1f2937''\<rparr>)]"

text \<open>The name the table gives a cell value, \<open>ITEM_TYPES[itemType].name\<close>, if it has one.\<close>

definition itemName :: "int \<Rightarrow> string option" where
  "itemName itemType = map_option name (map_of ITEM_TYPES itemType)"

text \<open>Line 168: \<open>const isEmpty = cell === -99\<close>.\<close>

definition isEmpty :: "int \<Rightarrow> bool" where
  "isEmpty cell = (cell = - 99)"

text \<open>Line 174: the button of a cell is disabled when \<open>!isEmpty || gameState.game_over || loading\<close>.\<close>

definition disabled :: "int \<Rightarrow> bool \<Rightarrow> bool \<Rightarrow> bool" where
  "disabled cell game_over loading = (\<not> isEmpty cell \<or> game_over \<or> loading)"

text \<open>
  Lines 205 to 217: the item progression shows the entries whose key is neither below 0 nor
  above 7.
\<close>

definition legend :: "(int \<times> string) list" where
  "legend = map (\<lambda>(key, it). (key, name it)) (filter (\<lambda>(key, it). \<not> (key < 0 \<or> key > 7)) ITEM_TYPES)"

section \<open>Notions the properties are stated with\<close>

text \<open>Two coordinates one step apart along a row or a column.\<close>

definition adjacent :: "int \<times> int \<Rightarrow> int \<times> int \<Rightarrow> bool" where
  "adjacent p q = (\<bar>fst p - fst q\<bar> + \<bar>snd p - snd q\<bar> = 1)"

text \<open>
  The component of the specification, in its words: the coordinates reachable from the origin
  through chains of orthogonal neighbours that all hold the same value. It is the notion the
  group list of the source is compared with.
\<close>

inductive spec_reachable :: "grid \<Rightarrow> int \<Rightarrow> int \<times> int \<Rightarrow> int \<times> int \<Rightarrow> bool"
  for g :: grid and val :: int and p :: "int \<times> int" where
  origin: "cell_at g (fst p) (snd p) = Some val \<Longrightarrow> spec_reachable g val p p"
| step: "spec_reachable g val p q \<Longrightarrow> adjacent q r \<Longrightarrow> cell_at g (fst r) (snd r) = Some val
          \<Longrightarrow> spec_reachable g val p r"

text \<open>The scanned coordinates that hold something other than 0.\<close>

definition occupied_cells :: "grid \<Rightarrow> (int \<times> int) list" where
  "occupied_cells g = filter (\<lambda>c. cell_at g (fst c) (snd c) \<noteq> Some 0) cells"

section \<open>Boards to run on\<close>

text \<open>
  Boards of the prototype, written row by row as the array holds them, so that the cell at
  \<open>(x, y)\<close> is entry \<open>x\<close> of row \<open>y\<close>.
\<close>

definition board_pair :: grid where
  "board_pair =
     [[1, 1, 0, 0, 0, 0],
      [0, 0, 0, 0, 0, 0],
      [0, 0, 0, 0, 0, 0],
      [0, 0, 0, 0, 0, 0],
      [0, 0, 0, 0, 0, 0],
      [0, 0, 0, 0, 0, 0]]"

definition board_corner :: grid where
  "board_corner =
     [[1, 1, 0, 0, 0, 0],
      [1, 0, 0, 0, 0, 0],
      [0, 0, 0, 0, 0, 0],
      [0, 0, 0, 0, 0, 0],
      [0, 0, 0, 0, 0, 0],
      [0, 0, 0, 0, 0, 0]]"

definition board_cascade :: grid where
  "board_cascade =
     [[1, 1, 1, 0, 0, 0],
      [0, 2, 0, 0, 0, 0],
      [0, 2, 0, 0, 0, 0],
      [0, 0, 0, 0, 0, 0],
      [0, 0, 0, 0, 0, 0],
      [0, 0, 0, 0, 0, 0]]"

definition board_edges :: grid where
  "board_edges =
     [[1, 1, 0, 0, 0, 2],
      [0, 0, 0, 0, 0, 2],
      [0, 0, 0, 0, 0, 0],
      [0, 0, 0, 0, 0, 0],
      [3, 0, 0, 0, 0, 0],
      [3, 3, 0, 0, 4, 4]]"

definition board_top :: grid where
  "board_top =
     [[7, 7, 7, 0, 0, 0],
      [0, 0, 0, 0, 0, 0],
      [8, 8, 8, 0, 0, 0],
      [0, 0, 0, 0, 0, 0],
      [0, 0, 0, 0, 0, 0],
      [0, 0, 0, 0, 0, 0]]"

definition board_row4 :: grid where
  "board_row4 =
     [[1, 1, 1, 1, 0, 0],
      [0, 0, 0, 0, 0, 0],
      [0, 0, 0, 0, 0, 0],
      [0, 0, 0, 0, 0, 0],
      [0, 0, 0, 0, 0, 0],
      [0, 0, 0, 0, 0, 0]]"

definition board_row3 :: grid where
  "board_row3 =
     [[1, 1, 1, 0, 0, 0],
      [0, 0, 0, 0, 0, 0],
      [0, 0, 0, 0, 0, 0],
      [0, 0, 0, 0, 0, 0],
      [0, 0, 0, 0, 0, 0],
      [0, 0, 0, 0, 0, 0]]"

text \<open>
  A board the program reaches, and the clicks that give it: each a coordinate with the outcome
  of the random draw, true for grass (1) and false for bush (2).
\<close>

definition board_chain :: grid where
  "board_chain =
     [[1, 1, 0, 0, 0, 0],
      [3, 2, 0, 0, 0, 0],
      [3, 2, 0, 0, 0, 0],
      [0, 0, 0, 0, 0, 0],
      [0, 0, 0, 0, 0, 0],
      [0, 0, 0, 0, 0, 0]]"

definition clicks_chain :: "(int \<times> int \<times> bool) list" where
  "clicks_chain =
     [(0, 0, False), (0, 2, False), (0, 1, False), (0, 3, False), (1, 2, False),
      (0, 2, False), (1, 1, False), (1, 2, False), (0, 0, True), (1, 0, True)]"

section \<open>Facts about the prototype\<close>

lemma set_cells: "set cells = {(x, y). in_bounds x y}"
proof -
  have "(a, b) \<in> set cells \<longleftrightarrow> in_bounds a b" for a b
    by (simp add: cells_def in_bounds_def gridSize_def image_iff) linarith
  then show ?thesis by auto
qed

lemma wf_cell_at:
  assumes "wf_grid g"
  shows "(cell_at g x y \<noteq> None) = in_bounds x y"
proof -
  from assms have len: "length g = 6" and rows: "\<And>r. r \<in> set g \<Longrightarrow> length r = 6"
    by (auto simp: wf_grid_def gridSize_def list_all_iff)
  show ?thesis
  proof (cases "0 \<le> y \<and> nat y < length g")
    case True
    then have "length (g ! nat y) = 6" using rows by simp
    with True len show ?thesis
      by (auto simp: cell_at_def row_at_def elem_at_def in_bounds_def gridSize_def)
  next
    case False
    with len show ?thesis
      by (auto simp: cell_at_def row_at_def in_bounds_def gridSize_def)
  qed
qed

lemma read_cell_cell_at:
  "cell_at g x y = Some v \<Longrightarrow> read_cell g x y = Inr (Some v)"
  by (auto simp: cell_at_def read_cell_def split: option.splits)

lemma wf_grid_collapse: "wf_grid (collapse g x y val same) = wf_grid g"
  unfolding wf_grid_shape collapse_shape ..

lemma visit_qualifies:
  assumes "cell_at g x y \<noteq> None"
  shows "visit (g, m) x y =
           (if qualifies g x y
            then Inr (collapse g x y (the (cell_at g x y)) (sameTiles g x y (the (cell_at g x y))), True)
            else Inr (g, m))"
proof -
  from assms obtain val where v: "cell_at g x y = Some val" by auto
  show ?thesis
    using read_cell_cell_at[OF v] by (simp add: visit_def qualifies_def v Let_def)
qed

lemma visit_wf:
  assumes "wf_grid g" "in_bounds x y"
  shows "\<exists>g' m'. visit (g, m) x y = Inr (g', m') \<and> wf_grid g'"
  using assms visit_qualifies[of g x y m] wf_cell_at[OF assms(1), of x y]
  by (auto simp: wf_grid_collapse)

lemma scan_cells_wf:
  assumes "wf_grid g" "\<forall>c\<in>set cs. in_bounds (fst c) (snd c)"
  shows "\<exists>g' m'. scan_cells cs (g, m) = Inr (g', m') \<and> wf_grid g'"
  using assms
proof (induction cs arbitrary: g m)
  case Nil then show ?case by simp
next
  case (Cons c cs)
  from visit_wf[OF Cons.prems(1), of "fst c" "snd c" m] Cons.prems(2)
  obtain g1 m1 where v: "visit (g, m) (fst c) (snd c) = Inr (g1, m1)" and w: "wf_grid g1"
    by auto
  from Cons.IH[OF w, of m1] Cons.prems(2) v show ?case by auto
qed

lemma scan_wf:
  assumes "wf_grid g"
  shows "\<exists>g' m'. scan_cells cells (g, m) = Inr (g', m') \<and> wf_grid g'"
  using scan_cells_wf[OF assms, of cells m] by (auto simp: set_cells)

lemma mergeTiles_wf:
  "wf_grid g \<Longrightarrow> \<exists>g'. mergeTiles g = Inr g' \<and> wf_grid g'"
proof (induction g rule: mergeTiles.induct)
  case (1 g)
  from scan_wf[OF "1.prems", of False] obtain g1 m1
    where s: "scan_cells cells (g, False) = Inr (g1, m1)" and w: "wf_grid g1" by auto
  show ?case
  proof (cases m1)
    case True
    from "1.IH"[OF s refl True w] obtain g' where "mergeTiles g1 = Inr g'" "wf_grid g'" by auto
    with s True show ?thesis by simp
  next
    case False
    with s w show ?thesis by simp
  qed
qed

lemma scan_cells_flag:
  "scan_cells cs (g, True) = Inr (g', m') \<Longrightarrow> m'"
proof (induction cs arbitrary: g)
  case Nil then show ?case by simp
next
  case (Cons c cs)
  from Cons.prems obtain g1 m1 where v: "visit (g, True) (fst c) (snd c) = Inr (g1, m1)"
    and r: "scan_cells cs (g1, m1) = Inr (g', m')"
    by (auto split: sum.splits)
  from v have m1 by (cases rule: visit_cases) auto
  with r Cons.IH show ?case by auto
qed

lemma scan_cells_quiet:
  assumes "\<forall>c\<in>set cs. cell_at g (fst c) (snd c) \<noteq> None"
  shows "(scan_cells cs (g, False) = Inr (g', False))
           = (g' = g \<and> (\<forall>c\<in>set cs. \<not> qualifies g (fst c) (snd c)))"
  using assms
proof (induction cs)
  case Nil then show ?case by auto
next
  case (Cons c cs)
  have here: "cell_at g (fst c) (snd c) \<noteq> None" using Cons.prems by simp
  show ?case
  proof (cases "qualifies g (fst c) (snd c)")
    case True
    then show ?thesis
      using visit_qualifies[OF here, of False] scan_cells_flag by auto
  next
    case False
    then show ?thesis
      using visit_qualifies[OF here, of False] Cons by auto
  qed
qed

lemma scan_quiet:
  assumes "wf_grid g"
  shows "(scan_cells cells (g, False) = Inr (g', False))
           = (g' = g \<and> (\<forall>c\<in>set cells. \<not> qualifies g (fst c) (snd c)))"
proof (rule scan_cells_quiet)
  show "\<forall>c\<in>set cells. cell_at g (fst c) (snd c) \<noteq> None"
    using wf_cell_at[OF assms] by (auto simp: set_cells)
qed

lemma mergeTiles_occupied:
  "mergeTiles g = Inr g' \<Longrightarrow> g' = g \<or> occupied g' + 2 \<le> occupied g"
proof (induction g rule: mergeTiles.induct)
  case (1 g)
  from "1.prems" obtain g1 m1 where s: "scan_cells cells (g, False) = Inr (g1, m1)"
    by (auto split: sum.splits)
  show ?case
  proof (cases m1)
    case True
    with s "1.prems" have r: "mergeTiles g1 = Inr g'" by simp
    from "1.IH"[OF s refl True r] scan_cells_occupied[OF s] True show ?thesis by auto
  next
    case False
    with s "1.prems" have "g' = g1" by simp
    with scan_cells_occupied[OF s] False show ?thesis by auto
  qed
qed

lemma mergeTiles_fixed:
  assumes "wf_grid g" "mergeTiles g = Inr g'"
  shows "\<forall>c\<in>set cells. \<not> qualifies g' (fst c) (snd c)"
  using assms
proof (induction g rule: mergeTiles.induct)
  case (1 g)
  from scan_wf[OF "1.prems"(1), of False] obtain g1 m1
    where s: "scan_cells cells (g, False) = Inr (g1, m1)" and w: "wf_grid g1" by auto
  show ?case
  proof (cases m1)
    case True
    with s "1.prems" have r: "mergeTiles g1 = Inr g'" by simp
    from "1.IH"[OF s refl True w r] show ?thesis .
  next
    case False
    with s "1.prems" have e: "g' = g1" by simp
    from s False have "scan_cells cells (g, False) = Inr (g1, False)" by simp
    with scan_quiet[OF "1.prems"(1), of g1] e show ?thesis by simp
  qed
qed

lemma mergeTiles_idle:
  assumes "wf_grid g"
  shows "(mergeTiles g = Inr g) = (\<forall>c\<in>set cells. \<not> qualifies g (fst c) (snd c))"
proof
  assume "mergeTiles g = Inr g"
  from mergeTiles_fixed[OF assms this] show "\<forall>c\<in>set cells. \<not> qualifies g (fst c) (snd c)" .
next
  assume "\<forall>c\<in>set cells. \<not> qualifies g (fst c) (snd c)"
  with scan_quiet[OF assms, of g] have "scan_cells cells (g, False) = Inr (g, False)" by simp
  then show "mergeTiles g = Inr g" by simp
qed

lemma visit_keeps_zero:
  assumes "visit (g, m) x y = Inr (g', m')" "cell_at g a b = Some 0"
  shows "cell_at g' a b = Some 0"
  using assms(1)
proof (cases rule: visit_cases)
  case skip with assms(2) show ?thesis by simp
next
  case (merge val)
  with assms(2) show ?thesis by (auto simp: collapse_cell_at)
qed

lemma scan_cells_keeps_zero:
  assumes "scan_cells cs (g, m) = Inr (g', m')" "cell_at g a b = Some 0"
  shows "cell_at g' a b = Some 0"
  using assms
proof (induction cs arbitrary: g m)
  case Nil then show ?case by simp
next
  case (Cons c cs)
  from Cons.prems(1) obtain g1 m1 where v: "visit (g, m) (fst c) (snd c) = Inr (g1, m1)"
    and r: "scan_cells cs (g1, m1) = Inr (g', m')"
    by (auto split: sum.splits)
  from Cons.IH[OF r visit_keeps_zero[OF v Cons.prems(2)]] show ?case .
qed

lemma mergeTiles_keeps_zero:
  "mergeTiles g = Inr g' \<Longrightarrow> cell_at g a b = Some 0 \<Longrightarrow> cell_at g' a b = Some 0"
proof (induction g rule: mergeTiles.induct)
  case (1 g)
  from "1.prems"(1) obtain g1 m1 where s: "scan_cells cells (g, False) = Inr (g1, m1)"
    by (auto split: sum.splits)
  note z = scan_cells_keeps_zero[OF s "1.prems"(2)]
  show ?case
  proof (cases m1)
    case True
    with s "1.prems" have r: "mergeTiles g1 = Inr g'" by simp
    from "1.IH"[OF s refl True r z] show ?thesis .
  next
    case False
    with s "1.prems" z show ?thesis by simp
  qed
qed

lemma set_sameTiles:
  "set (sameTiles g x y val) =
     insert (x, y) {q. adjacent (x, y) q \<and> cell_at g (fst q) (snd q) = Some val}"
proof -
  have adj: "adjacent (x, y) (a, b) = ((a, b) \<in> (\<lambda>(dx, dy). (x + dx, y + dy)) ` set directions)" for a b
    by (auto simp: adjacent_def directions_def)
  show ?thesis
    unfolding sameTiles_def by (auto simp: adj)
qed

lemma qualifies_iff:
  "qualifies g x y =
     (\<exists>val p r. cell_at g x y = Some val \<and> val \<noteq> 0 \<and> p \<noteq> r
        \<and> adjacent (x, y) p \<and> cell_at g (fst p) (snd p) = Some val
        \<and> adjacent (x, y) r \<and> cell_at g (fst r) (snd r) = Some val)"
proof (cases "cell_at g x y")
  case None
  then show ?thesis by (simp add: qualifies_def)
next
  case (Some val)
  let ?N = "{q. adjacent (x, y) q \<and> cell_at g (fst q) (snd q) = Some val}"
  have "?N \<subseteq> set (sameTiles g x y val)" by (auto simp: set_sameTiles)
  then have fin: "finite ?N" by (rule finite_subset) simp
  have notin: "(x, y) \<notin> ?N" by (simp add: adjacent_def)
  have "length (sameTiles g x y val) = card (set (sameTiles g x y val))"
    using sameTiles_distinct[of g x y val] by (simp add: distinct_card)
  also have "\<dots> = Suc (card ?N)"
    using fin notin by (simp add: set_sameTiles)
  finally have len: "length (sameTiles g x y val) = Suc (card ?N)" .
  have "(3 \<le> length (sameTiles g x y val)) = (\<not> card ?N \<le> Suc 0)"
    using len by auto
  also have "\<dots> = (\<exists>p\<in>?N. \<exists>r\<in>?N. p \<noteq> r)"
    using card_le_Suc0_iff_eq[OF fin] by auto
  finally show ?thesis
    using Some by (auto simp: qualifies_def)
qed

lemma adjacent_sym: "adjacent p q = adjacent q p"
  by (auto simp: adjacent_def)

lemma reachable_near:
  assumes "spec_reachable g val p q"
    and one: "\<forall>c a b. cell_at g (fst c) (snd c) = Some val
               \<and> adjacent c a \<and> cell_at g (fst a) (snd a) = Some val
               \<and> adjacent c b \<and> cell_at g (fst b) (snd b) = Some val \<longrightarrow> a = b"
  shows "cell_at g (fst p) (snd p) = Some val
       \<and> (q = p \<or> (adjacent p q \<and> cell_at g (fst q) (snd q) = Some val))"
  using assms(1)
proof (induction rule: spec_reachable.induct)
  case origin
  then show ?case by simp
next
  case (step q r)
  then have pv: "cell_at g (fst p) (snd p) = Some val" by simp
  from step.IH show ?case
  proof (elim conjE disjE)
    assume "q = p"
    with step.hyps pv show ?thesis by simp
  next
    assume a: "adjacent p q" and qv: "cell_at g (fst q) (snd q) = Some val"
    from a have "adjacent q p" by (simp add: adjacent_sym)
    with one qv pv step.hyps(2,3) have "p = r" by blast
    with pv show ?thesis by simp
  qed
qed

lemma component_small:
  assumes one: "\<forall>c a b. cell_at g (fst c) (snd c) = Some val
               \<and> adjacent c a \<and> cell_at g (fst a) (snd a) = Some val
               \<and> adjacent c b \<and> cell_at g (fst b) (snd b) = Some val \<longrightarrow> a = b"
    and "spec_reachable g val p q" "spec_reachable g val p r"
  shows "q = p \<or> r = p \<or> q = r"
proof -
  from reachable_near[OF assms(2) one]
  have pv: "cell_at g (fst p) (snd p) = Some val"
    and q: "q = p \<or> (adjacent p q \<and> cell_at g (fst q) (snd q) = Some val)"
    by blast+
  from reachable_near[OF assms(3) one]
  have r: "r = p \<or> (adjacent p r \<and> cell_at g (fst r) (snd r) = Some val)"
    by blast
  show ?thesis
  proof (cases "q = p \<or> r = p")
    case True then show ?thesis by blast
  next
    case False
    with q r have "adjacent p q" "cell_at g (fst q) (snd q) = Some val"
      "adjacent p r" "cell_at g (fst r) (snd r) = Some val" by blast+
    with one pv show ?thesis by blast
  qed
qed

lemma getRandomTile_nonzero: "getRandomTile below \<noteq> 0"
  by (simp add: getRandomTile_def)

lemma handleClick_free:
  "cell_at g x y = Some 0 \<Longrightarrow>
   handleClick g x y below =
     (case mergeTiles (set_cell g x y (getRandomTile below)) of
        Inl e \<Rightarrow> Inl e
      | Inr g' \<Rightarrow> Inr (Undefined, g'))"
  by (simp add: handleClick_def read_cell_cell_at)

lemma handleClick_held:
  assumes "cell_at g x y = Some v" "v \<noteq> 0"
  shows "handleClick g x y below = Inr (Undefined, g)"
  using assms by (simp add: handleClick_def read_cell_cell_at)

lemma initialGrid_quiet:
  "wf_grid initialGrid \<and> (\<forall>c\<in>set cells. \<not> qualifies initialGrid (fst c) (snd c))"
  by code_simp

lemma handleClick_quiet:
  assumes "wf_grid g" "in_bounds x y" "handleClick g x y below = Inr (r, g')"
    and "\<forall>c\<in>set cells. \<not> qualifies g (fst c) (snd c)"
  shows "wf_grid g' \<and> (\<forall>c\<in>set cells. \<not> qualifies g' (fst c) (snd c))"
proof -
  from wf_cell_at[OF assms(1), of x y] assms(2) obtain v where v: "cell_at g x y = Some v"
    by auto
  show ?thesis
  proof (cases "v = 0")
    case False
    from handleClick_held[OF v False, of below] assms(3) have "g' = g" by simp
    with assms(1,4) show ?thesis by simp
  next
    case True
    let ?h = "set_cell g x y (getRandomTile below)"
    have wh: "wf_grid ?h" using assms(1) by (simp add: wf_grid_set_cell)
    from mergeTiles_wf[OF wh] obtain g1 where m: "mergeTiles ?h = Inr g1" and w1: "wf_grid g1"
      by auto
    from handleClick_free[of g x y below] v True m assms(3) have "g' = g1" by simp
    with w1 mergeTiles_fixed[OF wh m] show ?thesis by simp
  qed
qed

lemma arises_quiet:
  "arises g \<Longrightarrow> wf_grid g \<and> (\<forall>c\<in>set cells. \<not> qualifies g (fst c) (snd c))"
proof (induction rule: arises.induct)
  case initial
  show ?case by (rule initialGrid_quiet)
next
  case (click g x y below r g')
  then show ?case using handleClick_quiet[of g x y below r g'] by blast
qed

lemma clicks_arise:
  assumes "arises g" "\<forall>c\<in>set cs. in_bounds (fst c) (fst (snd c))" "clicks g cs = Inr g'"
  shows "arises g'"
  using assms
proof (induction cs arbitrary: g)
  case Nil
  then show ?case by simp
next
  case (Cons c cs)
  from Cons.prems(3) obtain r g1 where h: "handleClick g (fst c) (fst (snd c)) (snd (snd c)) = Inr (r, g1)"
    and rest: "clicks g1 cs = Inr g'"
    by (auto split: sum.splits)
  from Cons.prems(2) have b: "in_bounds (fst c) (fst (snd c))" by simp
  from arises.click[OF Cons.prems(1) b h] have "arises g1" .
  from Cons.IH[OF this _ rest] Cons.prems(2) show ?case by simp
qed

lemma scan_cells_append:
  "scan_cells (xs @ ys) s =
     (case scan_cells xs s of Inl e \<Rightarrow> Inl e | Inr s' \<Rightarrow> scan_cells ys s')"
  by (induction xs arbitrary: s) (auto split: sum.splits)

lemma scan_first_collapse:
  assumes "wf_grid g" "cells = pre @ c # post"
    "\<forall>d\<in>set pre. \<not> qualifies g (fst d) (snd d)" "qualifies g (fst c) (snd c)"
  shows "scan_cells cells (g, False) =
           scan_cells post
             (collapse g (fst c) (snd c) (the (cell_at g (fst c) (snd c)))
                (sameTiles g (fst c) (snd c) (the (cell_at g (fst c) (snd c)))), True)"
proof -
  have inb: "\<forall>d\<in>set cells. cell_at g (fst d) (snd d) \<noteq> None"
    using wf_cell_at[OF assms(1)] by (auto simp: set_cells)
  then have p: "\<forall>d\<in>set pre. cell_at g (fst d) (snd d) \<noteq> None"
    and cc: "cell_at g (fst c) (snd c) \<noteq> None"
    unfolding assms(2) by auto
  have "scan_cells pre (g, False) = Inr (g, False)"
    using scan_cells_quiet[OF p, of g] assms(3) by simp
  then show ?thesis
    unfolding assms(2) using visit_qualifies[OF cc, of False] assms(4)
    by (simp add: scan_cells_append)
qed

section \<open>The claims\<close>

text \<open>
  Claim C1 says that when the group found around a cell has fewer than 3 members, the merge
  pass leaves the grid unchanged at those cells. After two clicks and a third at
  \<open>(2, 0)\<close> the top row holds three 1s. The list around \<open>(0, 0)\<close> has two entries and the
  visit of \<open>(0, 0)\<close> changes nothing, yet the pass clears \<open>(0, 0)\<close>: it is a member of
  the list around \<open>(1, 0)\<close>, which has three.
\<close>

theorem group_of_three_counterexample:
  "clicks initialGrid [(0, 0, True), (1, 0, True)] = Inr board_pair
   \<and> set_cell board_pair 2 0 (getRandomTile True) = board_row3
   \<and> cell_at board_row3 0 0 = Some 1
   \<and> sameTiles board_row3 0 0 1 = [(0, 0), (1, 0)]
   \<and> visit (board_row3, False) 0 0 = Inr (board_row3, False)
   \<and> mergeTiles board_row3 =
       Inr [[0, 2, 0, 0, 0, 0],
            [0, 0, 0, 0, 0, 0],
            [0, 0, 0, 0, 0, 0],
            [0, 0, 0, 0, 0, 0],
            [0, 0, 0, 0, 0, 0],
            [0, 0, 0, 0, 0, 0]]
   \<and> handleClick board_pair 2 0 True =
       Inr (Undefined,
            [[0, 2, 0, 0, 0, 0],
             [0, 0, 0, 0, 0, 0],
             [0, 0, 0, 0, 0, 0],
             [0, 0, 0, 0, 0, 0],
             [0, 0, 0, 0, 0, 0],
             [0, 0, 0, 0, 0, 0]])"
  by code_simp

text \<open>
  Claim C1, as the source has it. On a 6 by 6 grid the visit of an occupied cell leaves the
  state exactly as it was if and only if the list built around the cell has fewer than three
  entries, and collapses the list if and only if it has three or more; what a visit leaves
  alone a later visit of the same pass may still clear. \<open>mergeTiles\<close> gives the grid back
  unchanged if and only if no scanned cell has a list of three or more, so two adjacent equal
  cells with no third stay as they are; otherwise the scan collapses the first such cell in
  scan order and the pass ends with at least two occupied cells fewer.
\<close>

theorem group_of_three_collapses:
  assumes "wf_grid g"
  shows "(cell_at g x y = Some val \<and> val \<noteq> 0 \<longrightarrow>
            (visit (g, m) x y = Inr (g, m)) = (length (sameTiles g x y val) < 3)
          \<and> (visit (g, m) x y = Inr (collapse g x y val (sameTiles g x y val), True))
              = (3 \<le> length (sameTiles g x y val)))
       \<and> (mergeTiles g = Inr g) = (\<forall>c\<in>set cells. \<not> qualifies g (fst c) (snd c))
       \<and> (cells = pre @ c # post \<and> (\<forall>d\<in>set pre. \<not> qualifies g (fst d) (snd d))
            \<and> qualifies g (fst c) (snd c) \<longrightarrow>
            scan_cells cells (g, False) =
              scan_cells post
                (collapse g (fst c) (snd c) (the (cell_at g (fst c) (snd c)))
                   (sameTiles g (fst c) (snd c) (the (cell_at g (fst c) (snd c)))), True)
          \<and> (\<exists>g'. mergeTiles g = Inr g' \<and> occupied g' + 2 \<le> occupied g))"
proof (intro conjI impI)
  assume a: "cell_at g x y = Some val \<and> val \<noteq> 0"
  then have v: "cell_at g x y = Some val" and nz: "val \<noteq> 0" by simp_all
  let ?same = "sameTiles g x y val"
  have q: "qualifies g x y = (3 \<le> length ?same)"
    using v nz by (simp add: qualifies_def)
  have vis: "visit (g, m) x y = (if 3 \<le> length ?same then Inr (collapse g x y val ?same, True) else Inr (g, m))"
    using visit_qualifies[of g x y m] v q by simp
  have changed: "collapse g x y val ?same \<noteq> g"
  proof
    assume "collapse g x y val ?same = g"
    then have "cell_at (collapse g x y val ?same) x y = cell_at g x y" by simp
    then show False using v by (simp add: collapse_cell_at)
  qed
  show "(visit (g, m) x y = Inr (g, m)) = (length ?same < 3)"
    using vis changed by auto
  show "(visit (g, m) x y = Inr (collapse g x y val ?same, True)) = (3 \<le> length ?same)"
    using vis changed by auto
next
  show "(mergeTiles g = Inr g) = (\<forall>c\<in>set cells. \<not> qualifies g (fst c) (snd c))"
    by (rule mergeTiles_idle[OF assms])
next
  assume h: "cells = pre @ c # post \<and> (\<forall>d\<in>set pre. \<not> qualifies g (fst d) (snd d))
            \<and> qualifies g (fst c) (snd c)"
  then show "scan_cells cells (g, False) =
              scan_cells post
                (collapse g (fst c) (snd c) (the (cell_at g (fst c) (snd c)))
                   (sameTiles g (fst c) (snd c) (the (cell_at g (fst c) (snd c)))), True)"
    using scan_first_collapse[OF assms, of pre c post] by blast
  from h have e: "cells = pre @ c # post" by blast
  have "c \<in> set cells" unfolding e by simp
  with h have nq: "\<not> (\<forall>c\<in>set cells. \<not> qualifies g (fst c) (snd c))" by blast
  from mergeTiles_wf[OF assms] obtain g' where r: "mergeTiles g = Inr g'" by auto
  with nq mergeTiles_idle[OF assms] have "g' \<noteq> g" by auto
  with mergeTiles_occupied[OF r] r
  show "\<exists>g'. mergeTiles g = Inr g' \<and> occupied g' + 2 \<le> occupied g" by auto
qed

theorem group_of_three_collapses_witness:
  "wf_grid board_pair \<and> length (sameTiles board_pair 0 0 1) = 2
   \<and> visit (board_pair, False) 0 0 = Inr (board_pair, False)
   \<and> mergeTiles board_pair = Inr board_pair
   \<and> wf_grid board_row3 \<and> length (sameTiles board_row3 1 0 1) = 3
   \<and> cells = [(0, 0)] @ (1, 0) # tl (tl cells)
   \<and> visit (board_row3, False) 1 0 =
       Inr ([[0, 2, 0, 0, 0, 0],
             [0, 0, 0, 0, 0, 0],
             [0, 0, 0, 0, 0, 0],
             [0, 0, 0, 0, 0, 0],
             [0, 0, 0, 0, 0, 0],
             [0, 0, 0, 0, 0, 0]], True)
   \<and> scan_cells cells (board_row3, False) =
       scan_cells (tl (tl cells))
         ([[0, 2, 0, 0, 0, 0],
           [0, 0, 0, 0, 0, 0],
           [0, 0, 0, 0, 0, 0],
           [0, 0, 0, 0, 0, 0],
           [0, 0, 0, 0, 0, 0],
           [0, 0, 0, 0, 0, 0]], True)
   \<and> occupied board_row3 = 3
   \<and> (\<exists>g'. mergeTiles board_row3 = Inr g' \<and> occupied g' + 2 \<le> 3)
   \<and> mergeTiles board_row3 \<noteq> Inr board_row3"
proof -
  have w1: "wf_grid board_pair" by code_simp
  have w2: "wf_grid board_row3" by code_simp
  have c1: "cell_at board_pair 0 0 = Some 1 \<and> (1::int) \<noteq> 0" by code_simp
  have c2: "cell_at board_row3 1 0 = Some 1 \<and> (1::int) \<noteq> 0" by code_simp
  have l1: "length (sameTiles board_pair 0 0 1) = 2" by code_simp
  have l2: "length (sameTiles board_row3 1 0 1) = 3" by code_simp
  have q1: "\<forall>c\<in>set cells. \<not> qualifies board_pair (fst c) (snd c)" by code_simp
  have sp: "cells = [(0, 0)] @ (1, 0) # tl (tl cells)" by code_simp
  have q2: "(\<forall>d\<in>set [(0 :: int, 0 :: int)]. \<not> qualifies board_row3 (fst d) (snd d))
            \<and> qualifies board_row3 (fst (1 :: int, 0 :: int)) (snd (1 :: int, 0 :: int))"
    by code_simp
  have col: "collapse board_row3 1 0 1 (sameTiles board_row3 1 0 1) =
        [[0, 2, 0, 0, 0, 0],
         [0, 0, 0, 0, 0, 0],
         [0, 0, 0, 0, 0, 0],
         [0, 0, 0, 0, 0, 0],
         [0, 0, 0, 0, 0, 0],
         [0, 0, 0, 0, 0, 0]]" by code_simp
  have o: "occupied board_row3 = 3" by code_simp
  note a = group_of_three_collapses[OF w1, of 0 0 1 False]
  note b = group_of_three_collapses[OF w2, of 1 0 1 False "[(0, 0)]" "(1, 0)" "tl (tl cells)"]
  have tv: "the (cell_at board_row3 (fst (1 :: int, 0 :: int)) (snd (1 :: int, 0 :: int))) = 1"
    using c2 by simp
  have b1: "visit (board_row3, False) 1 0 =
       Inr (collapse board_row3 1 0 1 (sameTiles board_row3 1 0 1), True)"
    using b[THEN conjunct1, THEN mp, OF c2, THEN conjunct2] l2 by simp
  note third = b[THEN conjunct2, THEN conjunct2, THEN mp, OF conjI[OF sp q2]]
  have b2: "scan_cells cells (board_row3, False) =
       scan_cells (tl (tl cells)) (collapse board_row3 1 0 1 (sameTiles board_row3 1 0 1), True)"
    using third[THEN conjunct1] unfolding tv by (simp only: fst_conv snd_conv)
  have b3: "\<exists>g'. mergeTiles board_row3 = Inr g' \<and> occupied g' + 2 \<le> 3"
    using third[THEN conjunct2] unfolding o .
  have b4: "mergeTiles board_row3 \<noteq> Inr board_row3"
  proof
    assume "mergeTiles board_row3 = Inr board_row3"
    with b3 o show False by (simp del: mergeTiles.simps)
  qed
  have a1: "visit (board_pair, False) 0 0 = Inr (board_pair, False)"
    using a[THEN conjunct1, THEN mp, OF c1, THEN conjunct1] l1 by simp
  have a2: "mergeTiles board_pair = Inr board_pair"
    using a[THEN conjunct2, THEN conjunct1] q1 by (simp del: mergeTiles.simps)
  from w1 l1 a1 a2 w2 l2 sp b1 b2 o b3 b4 show ?thesis
    unfolding col by (simp only: simp_thms)
qed

text \<open>
  Claim C2 says the group is the whole connected component. In a row of four equal cells the
  fourth is reachable from the second through the third, yet it is not in the list built around
  the second; the visit collapses three cells and the fourth keeps its value to the end.
\<close>

theorem group_not_component_counterexample:
  "spec_reachable board_row4 1 (1, 0) (3, 0)
   \<and> (3, 0) \<notin> set (sameTiles board_row4 1 0 1)
   \<and> visit (board_row4, False) 1 0 =
       Inr ([[0, 2, 0, 1, 0, 0],
             [0, 0, 0, 0, 0, 0],
             [0, 0, 0, 0, 0, 0],
             [0, 0, 0, 0, 0, 0],
             [0, 0, 0, 0, 0, 0],
             [0, 0, 0, 0, 0, 0]], True)
   \<and> mergeTiles board_row4 =
       Inr [[0, 2, 0, 1, 0, 0],
            [0, 0, 0, 0, 0, 0],
            [0, 0, 0, 0, 0, 0],
            [0, 0, 0, 0, 0, 0],
            [0, 0, 0, 0, 0, 0],
            [0, 0, 0, 0, 0, 0]]"
proof -
  have c1: "cell_at board_row4 (fst (1, 0)) (snd (1, 0)) = Some 1" by code_simp
  have c2: "cell_at board_row4 (fst (2, 0)) (snd (2, 0)) = Some 1" by code_simp
  have c3: "cell_at board_row4 (fst (3, 0)) (snd (3, 0)) = Some 1" by code_simp
  have a1: "adjacent (1, 0) (2, 0)" and a2: "adjacent (2, 0) (3, 0)"
    by (simp_all add: adjacent_def)
  have "spec_reachable board_row4 1 (1, 0) (1, 0)" by (rule spec_reachable.origin[OF c1])
  then have "spec_reachable board_row4 1 (1, 0) (2, 0)" by (rule spec_reachable.step[OF _ a1 c2])
  then have r: "spec_reachable board_row4 1 (1, 0) (3, 0)" by (rule spec_reachable.step[OF _ a2 c3])
  have n: "(3, 0) \<notin> set (sameTiles board_row4 1 0 1)" by code_simp
  have v: "visit (board_row4, False) 1 0 =
       Inr ([[0, 2, 0, 1, 0, 0],
             [0, 0, 0, 0, 0, 0],
             [0, 0, 0, 0, 0, 0],
             [0, 0, 0, 0, 0, 0],
             [0, 0, 0, 0, 0, 0],
             [0, 0, 0, 0, 0, 0]], True)" by code_simp
  have m: "mergeTiles board_row4 =
       Inr [[0, 2, 0, 1, 0, 0],
            [0, 0, 0, 0, 0, 0],
            [0, 0, 0, 0, 0, 0],
            [0, 0, 0, 0, 0, 0],
            [0, 0, 0, 0, 0, 0],
            [0, 0, 0, 0, 0, 0]]" by code_simp
  from r n v m show ?thesis by simp
qed

text \<open>
  Claim C2, as the source has it. The list built around a cell holds the cell itself and
  exactly those of its four direct neighbours that hold its value: at most five coordinates,
  each of them reachable in the sense of the specification, but not every reachable one.
\<close>

theorem group_is_direct_neighbours:
  assumes "cell_at g x y = Some val"
  shows "set (sameTiles g x y val) =
           insert (x, y) {q. adjacent (x, y) q \<and> cell_at g (fst q) (snd q) = Some val}
       \<and> (\<forall>q\<in>set (sameTiles g x y val). spec_reachable g val (x, y) q)
       \<and> length (sameTiles g x y val) \<le> 5"
proof (intro conjI ballI)
  show "set (sameTiles g x y val) =
           insert (x, y) {q. adjacent (x, y) q \<and> cell_at g (fst q) (snd q) = Some val}"
    by (rule set_sameTiles)
  show "length (sameTiles g x y val) \<le> 5" by (rule sameTiles_length)
next
  fix q assume "q \<in> set (sameTiles g x y val)"
  then have "q = (x, y) \<or> (adjacent (x, y) q \<and> cell_at g (fst q) (snd q) = Some val)"
    by (auto simp: set_sameTiles)
  moreover have o: "spec_reachable g val (x, y) (x, y)"
    using assms by (intro spec_reachable.origin) simp
  ultimately show "spec_reachable g val (x, y) q"
    using spec_reachable.step[OF o, of q] by auto
qed

theorem group_is_direct_neighbours_witness:
  "cell_at board_row4 1 0 = Some 1
   \<and> sameTiles board_row4 1 0 1 = [(1, 0), (2, 0), (0, 0)]
   \<and> set [(1, 0), (2, 0), (0, 0)] =
       insert (1, 0) {q. adjacent (1, 0) q \<and> cell_at board_row4 (fst q) (snd q) = Some 1}"
proof -
  have c: "cell_at board_row4 1 0 = Some 1" by code_simp
  have s: "sameTiles board_row4 1 0 1 = [(1, 0), (2, 0), (0, 0)]" by code_simp
  from group_is_direct_neighbours[OF c] s c show ?thesis by simp
qed

text \<open>
  Claim C3. On every 6 by 6 grid \<open>mergeTiles\<close> returns, and what it returns is a
  fixed point: running it again changes nothing, no scanned cell has a list of three or more,
  no occupied cell has two different neighbours holding its value, and any two cells reachable
  from an occupied cell through equal neighbours are that cell or each other, so no connected
  set of three equal cells is left. The count of occupied cells never rose on the way, and every
  collapse of a list of \<open>k \<ge> 3\<close> cells lowers it by at least two.
\<close>

theorem cascade_terminates:
  assumes "wf_grid g"
  shows "\<exists>g'. mergeTiles g = Inr g' \<and> wf_grid g' \<and> occupied g' \<le> occupied g
           \<and> mergeTiles g' = Inr g'
           \<and> (\<forall>c\<in>set cells. \<not> qualifies g' (fst c) (snd c))
           \<and> (\<forall>q p r val. cell_at g' (fst q) (snd q) = Some val \<and> val \<noteq> 0
                  \<and> adjacent q p \<and> cell_at g' (fst p) (snd p) = Some val
                  \<and> adjacent q r \<and> cell_at g' (fst r) (snd r) = Some val \<longrightarrow> p = r)
           \<and> (\<forall>val p q r. val \<noteq> 0 \<and> spec_reachable g' val p q \<and> spec_reachable g' val p r
                  \<longrightarrow> q = p \<or> r = p \<or> q = r)
           \<and> (\<forall>x y val. cell_at g x y = Some val \<and> val \<noteq> 0 \<and> 3 \<le> length (sameTiles g x y val)
                  \<longrightarrow> occupied (collapse g x y val (sameTiles g x y val)) + 2 \<le> occupied g)"
proof -
  from mergeTiles_wf[OF assms] obtain g' where r: "mergeTiles g = Inr g'" and w: "wf_grid g'"
    by auto
  have occ: "occupied g' \<le> occupied g"
    using mergeTiles_occupied[OF r] by auto
  have fixed: "\<forall>c\<in>set cells. \<not> qualifies g' (fst c) (snd c)"
    by (rule mergeTiles_fixed[OF assms r])
  have idle: "mergeTiles g' = Inr g'"
    using mergeTiles_idle[OF w] fixed by simp
  have pairs: "p = r"
    if h: "cell_at g' (fst q) (snd q) = Some val \<and> val \<noteq> 0
         \<and> adjacent q p \<and> cell_at g' (fst p) (snd p) = Some val
         \<and> adjacent q r \<and> cell_at g' (fst r) (snd r) = Some val" for q p r val
  proof (rule ccontr)
    assume "p \<noteq> r"
    with h have "qualifies g' (fst q) (snd q)"
      unfolding qualifies_iff by (intro exI[of _ val] exI[of _ p] exI[of _ r]) simp
    moreover have "in_bounds (fst q) (snd q)"
      using wf_cell_at[OF w, of "fst q" "snd q"] h by simp
    ultimately show False using fixed by (auto simp: set_cells)
  qed
  have step: "occupied (collapse g x y val (sameTiles g x y val)) + 2 \<le> occupied g"
    if "cell_at g x y = Some val \<and> val \<noteq> 0 \<and> 3 \<le> length (sameTiles g x y val)" for x y val
    using collapse_occupied[of g x y val] that by (auto split: if_splits)
  have comp: "q = p \<or> r = p \<or> q = r"
    if h: "val \<noteq> 0 \<and> spec_reachable g' val p q \<and> spec_reachable g' val p r" for val p q r
  proof (rule component_small[of g' val p q r])
    show "\<forall>c a b. cell_at g' (fst c) (snd c) = Some val
               \<and> adjacent c a \<and> cell_at g' (fst a) (snd a) = Some val
               \<and> adjacent c b \<and> cell_at g' (fst b) (snd b) = Some val \<longrightarrow> a = b"
      using pairs h by blast
  qed (use h in simp_all)
  from r w occ idle fixed pairs comp step show ?thesis by blast
qed

theorem cascade_terminates_witness:
  "wf_grid board_cascade
   \<and> mergeTiles board_cascade =
       Inr [[0, 0, 0, 0, 0, 0],
            [0, 3, 0, 0, 0, 0],
            [0, 0, 0, 0, 0, 0],
            [0, 0, 0, 0, 0, 0],
            [0, 0, 0, 0, 0, 0],
            [0, 0, 0, 0, 0, 0]]
   \<and> occupied board_cascade = 5
   \<and> (\<exists>g'. mergeTiles board_cascade = Inr g' \<and> wf_grid g' \<and> occupied g' \<le> 5
          \<and> mergeTiles g' = Inr g')"
proof -
  have w: "wf_grid board_cascade" by code_simp
  have e: "mergeTiles board_cascade =
       Inr [[0, 0, 0, 0, 0, 0],
            [0, 3, 0, 0, 0, 0],
            [0, 0, 0, 0, 0, 0],
            [0, 0, 0, 0, 0, 0],
            [0, 0, 0, 0, 0, 0],
            [0, 0, 0, 0, 0, 0]]" by code_simp
  have o: "occupied board_cascade = 5" by code_simp
  from cascade_terminates[OF w] o
  have "\<exists>g'. mergeTiles board_cascade = Inr g' \<and> wf_grid g' \<and> occupied g' \<le> 5
          \<and> mergeTiles g' = Inr g'"
    by auto
  with w e o show ?thesis by simp
qed

text \<open>
  Claim C5 says a rejected placement returns a rejection carrying a reason. A click on the
  occupied cell \<open>(1, 0)\<close> returns \<open>undefined\<close>, the very value a click on the free cell
  \<open>(0, 1)\<close> returns.
\<close>

theorem click_returns_no_reason_counterexample:
  "clicks initialGrid [(0, 0, True), (1, 0, True)] = Inr board_pair
   \<and> in_bounds 1 0 \<and> cell_at board_pair 1 0 = Some 1
   \<and> handleClick board_pair 1 0 True = Inr (Undefined, board_pair)
   \<and> in_bounds 0 1 \<and> cell_at board_pair 0 1 = Some 0
   \<and> handleClick board_pair 0 1 True =
       Inr (Undefined,
            [[2, 0, 0, 0, 0, 0],
             [0, 0, 0, 0, 0, 0],
             [0, 0, 0, 0, 0, 0],
             [0, 0, 0, 0, 0, 0],
             [0, 0, 0, 0, 0, 0],
             [0, 0, 0, 0, 0, 0]])"
  by code_simp

text \<open>
  Claim C5, as the source has it. On a 6 by 6 grid a click on an occupied cell of the board,
  the one precondition \<open>handleClick\<close> tests, returns with the grid exactly as before. Every
  call returns \<open>undefined\<close>, so no reason is carried; what tells a rejected click from an
  accepted one is the grid, which an accepted click always changes. The prototype has no
  score, move counter or terminal state.
\<close>

theorem occupied_click_changes_nothing:
  assumes "wf_grid g" "in_bounds x y"
  shows "(cell_at g x y \<noteq> Some 0 \<longrightarrow> handleClick g x y below = Inr (Undefined, g))
       \<and> (cell_at g x y = Some 0 \<longrightarrow>
            (\<exists>g'. handleClick g x y below = Inr (Undefined, g') \<and> g' \<noteq> g
                \<and> mergeTiles (set_cell g x y (getRandomTile below)) = Inr g'))
       \<and> (\<exists>r g'. handleClick g x y below = Inr (r, g') \<and> r = Undefined
                \<and> (g' = g) = (cell_at g x y \<noteq> Some 0))"
proof -
  from wf_cell_at[OF assms(1), of x y] assms(2) obtain v where v: "cell_at g x y = Some v"
    by auto
  have held: "handleClick g x y below = Inr (Undefined, g)" if "cell_at g x y \<noteq> Some 0"
    using handleClick_held[OF v, of below] that v by simp
  have free: "\<exists>g'. handleClick g x y below = Inr (Undefined, g') \<and> g' \<noteq> g
                \<and> mergeTiles (set_cell g x y (getRandomTile below)) = Inr g'"
    if z: "cell_at g x y = Some 0"
  proof -
    let ?t = "getRandomTile below"
    let ?h = "set_cell g x y ?t"
    have wh: "wf_grid ?h" using assms(1) by (simp add: wf_grid_set_cell)
    from mergeTiles_wf[OF wh] obtain g' where m: "mergeTiles ?h = Inr g'" by auto
    have hc: "handleClick g x y below = Inr (Undefined, g')"
      using handleClick_free[OF z, of below] m by simp
    have oh: "occupied ?h = occupied g + 1"
      using occupied_set_cell[OF z, of ?t] getRandomTile_nonzero[of below] by simp
    have hg: "?h \<noteq> g"
    proof
      assume "?h = g"
      then have "cell_at ?h x y = cell_at g x y" by simp
      then show False using z getRandomTile_nonzero[of below] by (simp add: cell_at_set_cell)
    qed
    have "g' \<noteq> g"
    proof
      assume e: "g' = g"
      from mergeTiles_occupied[OF m] show False
      proof
        assume "g' = ?h" with e hg show False by simp
      next
        assume "occupied g' + 2 \<le> occupied ?h" with e oh show False by simp
      qed
    qed
    with hc m show ?thesis by blast
  qed
  show ?thesis
  proof (cases "cell_at g x y = Some 0")
    case True
    from free[OF True] True show ?thesis by auto
  next
    case False
    from held[OF False] False show ?thesis by auto
  qed
qed

theorem occupied_click_changes_nothing_witness:
  "wf_grid board_pair \<and> in_bounds 1 0 \<and> cell_at board_pair 1 0 = Some 1
   \<and> handleClick board_pair 1 0 True = Inr (Undefined, board_pair)
   \<and> in_bounds 0 1 \<and> cell_at board_pair 0 1 = Some 0
   \<and> (\<exists>g'. handleClick board_pair 0 1 True = Inr (Undefined, g') \<and> g' \<noteq> board_pair
          \<and> mergeTiles (set_cell board_pair 0 1 (getRandomTile True)) = Inr g')"
proof -
  have w: "wf_grid board_pair" by code_simp
  have b: "in_bounds 1 0" "in_bounds 0 1" by code_simp+
  have c: "cell_at board_pair 1 0 = Some 1" "cell_at board_pair 0 1 = Some 0" by code_simp+
  have h: "handleClick board_pair 1 0 True = Inr (Undefined, board_pair)"
    using occupied_click_changes_nothing[OF w b(1), of True, THEN conjunct1] c(1) by simp
  have f: "\<exists>g'. handleClick board_pair 0 1 True = Inr (Undefined, g') \<and> g' \<noteq> board_pair
          \<and> mergeTiles (set_cell board_pair 0 1 (getRandomTile True)) = Inr g'"
    using occupied_click_changes_nothing[OF w b(2), of True, THEN conjunct2, THEN conjunct1] c(2)
    by blast
  from w b c h f show ?thesis by blast
qed

text \<open>
  Claim C6 says only the group touching the placement coordinate is resolved during the call.
  Ten clicks from the empty grid give a board with two 1s, two 2s and two 3s. The click at
  \<open>(2, 0)\<close> completes the 1s; the rescan then collapses the 2s and, in its second pass,
  the three 3s at \<open>(0, 1)\<close>, \<open>(1, 1)\<close> and \<open>(0, 2)\<close>, none of which is the clicked
  cell or next to it.
\<close>

theorem cascade_leaves_click_counterexample:
  "clicks initialGrid clicks_chain = Inr board_chain
   \<and> cell_at board_chain 2 0 = Some 0
   \<and> cell_at board_chain 0 1 = Some 3 \<and> cell_at board_chain 0 2 = Some 3
   \<and> scan_cells cells (set_cell board_chain 2 0 (getRandomTile True), False) =
       Inr ([[0, 0, 0, 0, 0, 0],
             [3, 3, 0, 0, 0, 0],
             [3, 0, 0, 0, 0, 0],
             [0, 0, 0, 0, 0, 0],
             [0, 0, 0, 0, 0, 0],
             [0, 0, 0, 0, 0, 0]], True)
   \<and> sameTiles [[0, 0, 0, 0, 0, 0],
                 [3, 3, 0, 0, 0, 0],
                 [3, 0, 0, 0, 0, 0],
                 [0, 0, 0, 0, 0, 0],
                 [0, 0, 0, 0, 0, 0],
                 [0, 0, 0, 0, 0, 0]] 0 1 3 = [(0, 1), (1, 1), (0, 2)]
   \<and> \<not> adjacent (2, 0) (0, 1) \<and> \<not> adjacent (2, 0) (1, 1) \<and> \<not> adjacent (2, 0) (0, 2)
   \<and> handleClick board_chain 2 0 True =
       Inr (Undefined,
            [[0, 0, 0, 0, 0, 0],
             [4, 0, 0, 0, 0, 0],
             [0, 0, 0, 0, 0, 0],
             [0, 0, 0, 0, 0, 0],
             [0, 0, 0, 0, 0, 0],
             [0, 0, 0, 0, 0, 0]])"
  by code_simp

text \<open>
  Claim C6, as the source has it. On a board the program can hold, no cell has a list of three
  or more before a click. A click on a free cell writes the tile; every list of three or more
  present at that moment contains the clicked coordinate, with the value of the new tile, and
  when there is none the call changes nothing else. Otherwise \<open>mergeTiles\<close> rescans the whole
  board until no cell anywhere has a list of three or more.
\<close>

theorem click_starts_the_cascade:
  assumes "arises g" "cell_at g x y = Some 0"
  shows "\<exists>g'. handleClick g x y below = Inr (Undefined, g') \<and> arises g'
           \<and> (\<forall>c\<in>set cells. \<not> qualifies g (fst c) (snd c))
           \<and> (\<forall>c\<in>set cells. qualifies (set_cell g x y (getRandomTile below)) (fst c) (snd c) \<longrightarrow>
                 (x, y) \<in> set (sameTiles (set_cell g x y (getRandomTile below)) (fst c) (snd c)
                                 (getRandomTile below)))
           \<and> ((\<forall>c\<in>set cells. \<not> qualifies (set_cell g x y (getRandomTile below)) (fst c) (snd c))
                 \<longrightarrow> g' = set_cell g x y (getRandomTile below))
           \<and> (\<forall>c\<in>set cells. \<not> qualifies g' (fst c) (snd c))"
proof -
  let ?t = "getRandomTile below"
  let ?h = "set_cell g x y ?t"
  from arises_quiet[OF assms(1)] have wg: "wf_grid g"
    and quiet: "\<forall>c\<in>set cells. \<not> qualifies g (fst c) (snd c)" by simp_all
  have inb: "in_bounds x y" using wf_cell_at[OF wg, of x y] assms(2) by simp
  have wh: "wf_grid ?h" using wg by (simp add: wf_grid_set_cell)
  from mergeTiles_wf[OF wh] obtain g' where r: "mergeTiles ?h = Inr g'" by auto
  have hc: "handleClick g x y below = Inr (Undefined, g')"
    using handleClick_free[OF assms(2), of below] r by simp
  have ar: "arises g'" by (rule arises.click[OF assms(1) inb hc])
  have fixed: "\<forall>c\<in>set cells. \<not> qualifies g' (fst c) (snd c)"
    by (rule mergeTiles_fixed[OF wh r])
  have idle: "(\<forall>c\<in>set cells. \<not> qualifies ?h (fst c) (snd c)) \<longrightarrow> g' = ?h"
    using mergeTiles_idle[OF wh] r by auto
  have at: "cell_at ?h a b = (if a = x \<and> b = y then Some ?t else cell_at g a b)" for a b
    using assms(2) by (simp add: cell_at_set_cell)
  have touch: "(x, y) \<in> set (sameTiles ?h (fst c) (snd c) ?t)"
    if c: "c \<in> set cells" and q: "qualifies ?h (fst c) (snd c)" for c
  proof -
    obtain a b where ab: "c = (a, b)" by (cases c)
    from q have "\<exists>val p r. cell_at ?h a b = Some val \<and> val \<noteq> 0 \<and> p \<noteq> r
        \<and> adjacent (a, b) p \<and> cell_at ?h (fst p) (snd p) = Some val
        \<and> adjacent (a, b) r \<and> cell_at ?h (fst r) (snd r) = Some val"
      unfolding qualifies_iff ab fst_conv snd_conv .
    then obtain val p r where v: "cell_at ?h a b = Some val" and nz: "val \<noteq> 0" and pr: "p \<noteq> r"
      and p: "adjacent (a, b) p" "cell_at ?h (fst p) (snd p) = Some val"
      and r: "adjacent (a, b) r" "cell_at ?h (fst r) (snd r) = Some val"
      by blast
    have mem: "(x, y) \<in> set (sameTiles ?h a b val)"
    proof (rule ccontr)
      assume n: "(x, y) \<notin> set (sameTiles ?h a b val)"
      then have "(a, b) \<noteq> (x, y)" "p \<noteq> (x, y)" "r \<noteq> (x, y)"
        using p r by (auto simp: set_sameTiles)
      then have "cell_at g a b = Some val" "cell_at g (fst p) (snd p) = Some val"
        "cell_at g (fst r) (snd r) = Some val"
        using v p(2) r(2) at[of a b] at[of "fst p" "snd p"] at[of "fst r" "snd r"]
        by (auto simp: prod_eq_iff split: if_splits)
      with nz pr p(1) r(1) have "qualifies g a b"
        unfolding qualifies_iff by blast
      with quiet c ab show False by auto
    qed
    then have "cell_at ?h x y = Some val"
      using v by (auto simp: set_sameTiles)
    then have "val = ?t" using at[of x y] by simp
    with mem ab show ?thesis by simp
  qed
  from hc ar quiet touch idle fixed show ?thesis by blast
qed

theorem click_starts_the_cascade_witness:
  "arises board_pair \<and> cell_at board_pair 0 1 = Some 0 \<and> cell_at board_pair 3 3 = Some 0
   \<and> qualifies (set_cell board_pair 0 1 (getRandomTile True)) 0 0
   \<and> (0, 1) \<in> set (sameTiles (set_cell board_pair 0 1 (getRandomTile True)) 0 0 (getRandomTile True))
   \<and> (\<exists>g'. handleClick board_pair 0 1 True = Inr (Undefined, g') \<and> arises g')
   \<and> handleClick board_pair 3 3 True = Inr (Undefined, set_cell board_pair 3 3 (getRandomTile True))"
proof -
  have i: "\<forall>c\<in>set [(0 :: int, 0 :: int, True), (1, 0, True)]. in_bounds (fst c) (fst (snd c))"
    by code_simp
  have k: "clicks initialGrid [(0, 0, True), (1, 0, True)] = Inr board_pair" by code_simp
  have a: "arises board_pair" by (rule clicks_arise[OF arises.initial i k])
  have z: "cell_at board_pair 0 1 = Some 0" "cell_at board_pair 3 3 = Some 0" by code_simp+
  have c: "(0, 0) \<in> set cells" by code_simp
  have q: "qualifies (set_cell board_pair 0 1 (getRandomTile True)) 0 0" by code_simp
  have n: "\<forall>c\<in>set cells. \<not> qualifies (set_cell board_pair 3 3 (getRandomTile True)) (fst c) (snd c)"
    by code_simp
  from click_starts_the_cascade[OF a z(1), of True] c q
  have t: "(0, 1) \<in> set (sameTiles (set_cell board_pair 0 1 (getRandomTile True)) 0 0 (getRandomTile True))"
    and e: "\<exists>g'. handleClick board_pair 0 1 True = Inr (Undefined, g') \<and> arises g'"
    by fastforce+
  from click_starts_the_cascade[OF a z(2), of True] n
  have s: "handleClick board_pair 3 3 True = Inr (Undefined, set_cell board_pair 3 3 (getRandomTile True))"
    by auto
  from a z q t e s show ?thesis by blast
qed

text \<open>
  Claim C7 says the cell that is raised is capped at the highest level, 7 in the table of the
  view. The source adds 1 with no bound: three cells of 7 leave an 8, three cells of 8 a 9.
\<close>

theorem collapse_uncapped_counterexample:
  "cell_at board_top 1 0 = Some 7 \<and> cell_at board_top 1 2 = Some 8
   \<and> mergeTiles board_top =
       Inr [[0, 8, 0, 0, 0, 0],
            [0, 0, 0, 0, 0, 0],
            [0, 9, 0, 0, 0, 0],
            [0, 0, 0, 0, 0, 0],
            [0, 0, 0, 0, 0, 0],
            [0, 0, 0, 0, 0, 0]]"
  by code_simp

text \<open>
  Claim C7, as the source has it. When the list around an occupied cell has three or more
  entries, the visit sets every other listed cell to 0 and the scanned cell to \<open>val +
  1\<close>, whatever \<open>val\<close> is, leaves every cell outside the list alone and sets
  \<open>merged\<close>. The count of occupied cells drops by the length of the list less one
  (less nothing when \<open>val + 1\<close> is 0).
\<close>

theorem collapse_effect:
  assumes "cell_at g x y = Some val" "val \<noteq> 0" "3 \<le> length (sameTiles g x y val)"
  shows "\<exists>g'. visit (g, m) x y = Inr (g', True)
           \<and> cell_at g' x y = Some (val + 1)
           \<and> (\<forall>q\<in>set (sameTiles g x y val). q \<noteq> (x, y) \<longrightarrow> cell_at g' (fst q) (snd q) = Some 0)
           \<and> (\<forall>a b. (a, b) \<notin> set (sameTiles g x y val) \<longrightarrow> cell_at g' a b = cell_at g a b)
           \<and> occupied g' + length (sameTiles g x y val) = occupied g + (if val = - 1 then 0 else 1)"
proof -
  let ?same = "sameTiles g x y val"
  let ?g' = "collapse g x y val ?same"
  have q: "qualifies g x y" using assms by (simp add: qualifies_def)
  have v: "visit (g, m) x y = Inr (?g', True)"
    using visit_qualifies[of g x y m] assms(1) q by simp
  have c: "cell_at ?g' x y = Some (val + 1)"
    using assms(1) by (simp add: collapse_cell_at)
  have z: "\<forall>q\<in>set ?same. q \<noteq> (x, y) \<longrightarrow> cell_at ?g' (fst q) (snd q) = Some 0"
    using assms(1) by (auto simp: collapse_cell_at)
  have mem: "(x, y) \<in> set ?same" by (simp add: sameTiles_def)
  have u: "\<forall>a b. (a, b) \<notin> set ?same \<longrightarrow> cell_at ?g' a b = cell_at g a b"
    using assms(1) mem by (auto simp: collapse_cell_at)
  have o: "occupied ?g' + length ?same = occupied g + (if val = - 1 then 0 else 1)"
    using collapse_occupied[OF assms(1,2)] by (auto split: if_splits)
  from v c z u o show ?thesis by blast
qed

theorem collapse_effect_witness:
  "cell_at board_top 1 0 = Some 7 \<and> sameTiles board_top 1 0 7 = [(1, 0), (2, 0), (0, 0)]
   \<and> occupied board_top = 6
   \<and> (\<exists>g'. visit (board_top, False) 1 0 = Inr (g', True)
          \<and> cell_at g' 1 0 = Some 8 \<and> cell_at g' 2 0 = Some 0 \<and> cell_at g' 0 0 = Some 0
          \<and> cell_at g' 1 2 = Some 8 \<and> occupied g' = 4)"
proof -
  have c: "cell_at board_top 1 0 = Some 7" by code_simp
  have s: "sameTiles board_top 1 0 7 = [(1, 0), (2, 0), (0, 0)]" by code_simp
  have o: "occupied board_top = 6" by code_simp
  have k: "cell_at board_top 1 2 = Some 8" by code_simp
  from collapse_effect[OF c, of False] s o k
  have "\<exists>g'. visit (board_top, False) 1 0 = Inr (g', True)
          \<and> cell_at g' 1 0 = Some 8 \<and> cell_at g' 2 0 = Some 0 \<and> cell_at g' 0 0 = Some 0
          \<and> cell_at g' 1 2 = Some 8 \<and> occupied g' = 4"
    by auto
  with c s o show ?thesis by simp
qed

text \<open>
  Claim C8. The encoding the view consumes: the table has exactly the keys 0 to 7, -1, -2, -3
  and -99; the tiers shown in the progression are the keys 0 (grass) to 7 (monument); -1 is
  the bear (Blocker), -2 the tombstone (Converted-blocker marker), -3 the rock (Obstruction)
  and -99 the empty cell; a cell counts as empty exactly when its value is -99, and its button
  can be pressed exactly when it is empty and the game is neither over nor loading.
\<close>

theorem cell_encoding:
  "map fst ITEM_TYPES = [0, 1, 2, 3, 4, 5, 6, 7, - 1, - 2, - 3, - 99]
   \<and> legend = [(0, ''grass''), (1, ''bush''), (2, ''tree''), (3, ''house''),
               (4, ''mansion''), (5, ''castle''), (6, ''crystal''), (7, ''monument'')]
   \<and> (c \<in> fst ` set legend) = (0 \<le> c \<and> c \<le> 7)
   \<and> (itemName c = Some ''bear'') = (c = - 1)
   \<and> (itemName c = Some ''tombstone'') = (c = - 2)
   \<and> (itemName c = Some ''rock'') = (c = - 3)
   \<and> (itemName c = Some ''empty'') = (c = - 99)
   \<and> isEmpty c = (c = - 99)
   \<and> (\<not> disabled c game_over loading) = (c = - 99 \<and> \<not> game_over \<and> \<not> loading)"
proof -
  have l: "legend = [(0, ''grass''), (1, ''bush''), (2, ''tree''), (3, ''house''),
               (4, ''mansion''), (5, ''castle''), (6, ''crystal''), (7, ''monument'')]"
    by (simp add: legend_def ITEM_TYPES_def)
  have t: "(c \<in> fst ` set legend) = (0 \<le> c \<and> c \<le> 7)"
    unfolding l by auto
  show ?thesis
    using l t by (simp add: ITEM_TYPES_def itemName_def isEmpty_def disabled_def)
qed

theorem cell_encoding_witness:
  "isEmpty (- 99) \<and> \<not> isEmpty 0 \<and> \<not> disabled (- 99) False False \<and> disabled 0 False False
   \<and> disabled (- 99) True False
   \<and> itemName (- 99) = Some ''empty'' \<and> itemName 0 = Some ''grass''
   \<and> 7 \<in> fst ` set legend \<and> - 1 \<notin> fst ` set legend"
  using cell_encoding[of "- 99" False False] cell_encoding[of 0 False False]
    cell_encoding[of "- 99" True False] cell_encoding[of 7 False False]
    cell_encoding[of "- 1" False False]
  by (simp add: itemName_def ITEM_TYPES_def)

text \<open>
  Claim C9. The neighbour test is safe at the border. On a 6 by 6 grid the guarded read at a
  coordinate outside the board gives \<open>undefined\<close>, which equals no cell value; the
  list built around a cell of the board names only cells of the board; the visit of a cell of
  the board, the full scan and \<open>mergeTiles\<close> all complete normally and give back a
  6 by 6 grid.
\<close>

theorem neighbour_reads_in_bounds:
  assumes "wf_grid g"
  shows "(\<not> in_bounds a b \<longrightarrow> cell_at g a b = None \<and> cell_at g a b \<noteq> Some val)
       \<and> (in_bounds x y \<longrightarrow>
            (\<forall>q\<in>set (sameTiles g x y val). in_bounds (fst q) (snd q))
          \<and> (\<exists>g' m'. visit (g, m) x y = Inr (g', m') \<and> wf_grid g'))
       \<and> (\<exists>g' m'. scan_cells cells (g, m) = Inr (g', m') \<and> wf_grid g')
       \<and> (\<exists>g'. mergeTiles g = Inr g' \<and> wf_grid g')"
proof (intro conjI impI)
  assume "\<not> in_bounds a b"
  then show "cell_at g a b = None" using wf_cell_at[OF assms, of a b] by simp
  then show "cell_at g a b \<noteq> Some val" by simp
next
  assume b: "in_bounds x y"
  show "\<forall>q\<in>set (sameTiles g x y val). in_bounds (fst q) (snd q)"
  proof
    fix q assume "q \<in> set (sameTiles g x y val)"
    then have "q = (x, y) \<or> cell_at g (fst q) (snd q) = Some val"
      by (auto simp: set_sameTiles)
    then show "in_bounds (fst q) (snd q)"
      using b wf_cell_at[OF assms, of "fst q" "snd q"] by auto
  qed
  show "\<exists>g' m'. visit (g, m) x y = Inr (g', m') \<and> wf_grid g'"
    by (rule visit_wf[OF assms b])
next
  show "\<exists>g' m'. scan_cells cells (g, m) = Inr (g', m') \<and> wf_grid g'"
    by (rule scan_wf[OF assms])
  show "\<exists>g'. mergeTiles g = Inr g' \<and> wf_grid g'"
    by (rule mergeTiles_wf[OF assms])
qed

theorem neighbour_reads_in_bounds_witness:
  "wf_grid board_edges
   \<and> cell_at board_edges (-1) 5 = None \<and> cell_at board_edges 0 6 = None
   \<and> cell_at board_edges 6 5 = None \<and> cell_at board_edges 5 (-1) = None
   \<and> sameTiles board_edges 0 5 3 = [(0, 5), (1, 5), (0, 4)]
   \<and> sameTiles board_edges 5 0 2 = [(5, 0), (5, 1)]
   \<and> (\<exists>g' m'. visit (board_edges, False) 0 5 = Inr (g', m') \<and> wf_grid g')
   \<and> (\<exists>g'. mergeTiles board_edges = Inr g' \<and> wf_grid g')"
proof -
  have w: "wf_grid board_edges" by code_simp
  have b: "in_bounds 0 5" "\<not> in_bounds (-1) 5" "\<not> in_bounds 0 6" "\<not> in_bounds 6 5"
    "\<not> in_bounds 5 (-1)"
    by (simp_all add: in_bounds_def gridSize_def)
  have s: "sameTiles board_edges 0 5 3 = [(0, 5), (1, 5), (0, 4)]"
    "sameTiles board_edges 5 0 2 = [(5, 0), (5, 1)]"
    by code_simp+
  from neighbour_reads_in_bounds[OF w, where a = "-1" and b = 5 and x = 0 and y = 5 and m = False]
       neighbour_reads_in_bounds[OF w, where a = 0 and b = 6 and x = 0 and y = 5 and m = False]
       neighbour_reads_in_bounds[OF w, where a = 6 and b = 5 and x = 0 and y = 5 and m = False]
       neighbour_reads_in_bounds[OF w, where a = 5 and b = "-1" and x = 0 and y = 5 and m = False]
       b w s
  show ?thesis by simp
qed

text \<open>
  Claim C10. Merging never fills a free cell. \<open>mergeTiles\<close> returns a grid in
  which every cell that was 0 is still 0, so the occupied cells afterwards are among those
  before and their count has not grown; and a visit changes only cells that held a value other
  than 0.
\<close>

theorem merge_never_fills:
  assumes "wf_grid g"
  shows "\<exists>g'. mergeTiles g = Inr g'
           \<and> (\<forall>a b. cell_at g a b = Some 0 \<longrightarrow> cell_at g' a b = Some 0)
           \<and> set (occupied_cells g') \<subseteq> set (occupied_cells g)
           \<and> occupied g' \<le> occupied g
           \<and> (\<forall>x y m g1 m1 a b. visit (g, m) x y = Inr (g1, m1) \<and> cell_at g1 a b \<noteq> cell_at g a b
                 \<longrightarrow> cell_at g a b \<noteq> Some 0 \<and> cell_at g a b \<noteq> None)"
proof -
  from mergeTiles_wf[OF assms] obtain g' where r: "mergeTiles g = Inr g'" by auto
  have z: "\<forall>a b. cell_at g a b = Some 0 \<longrightarrow> cell_at g' a b = Some 0"
    using mergeTiles_keeps_zero[OF r] by blast
  then have sub: "set (occupied_cells g') \<subseteq> set (occupied_cells g)"
    using wf_cell_at[OF assms] by (auto simp: occupied_cells_def)
  have occ: "occupied g' \<le> occupied g"
    using mergeTiles_occupied[OF r] by auto
  have wr: "cell_at g a b \<noteq> Some 0 \<and> cell_at g a b \<noteq> None"
    if h: "visit (g, m) x y = Inr (g1, m1) \<and> cell_at g1 a b \<noteq> cell_at g a b" for x y m g1 m1 a b
  proof -
    from h have v: "visit (g, m) x y = Inr (g1, m1)" and d: "cell_at g1 a b \<noteq> cell_at g a b"
      by simp_all
    from v show ?thesis
    proof (cases rule: visit_cases)
      case skip with d show ?thesis by simp
    next
      case (merge val)
      have "(x, y) \<in> set (sameTiles g x y val)" by (simp add: sameTiles_def)
      with d merge(1,4) have "(a, b) \<in> set (sameTiles g x y val)"
        by (auto simp: collapse_cell_at split: if_splits)
      from sameTiles_cells[OF merge(1) this] merge(2) show ?thesis by simp
    qed
  qed
  from r z sub occ wr show ?thesis by blast
qed

theorem merge_never_fills_witness:
  "wf_grid board_edges
   \<and> mergeTiles board_edges =
       Inr [[1, 1, 0, 0, 0, 2],
            [0, 0, 0, 0, 0, 2],
            [0, 0, 0, 0, 0, 0],
            [0, 0, 0, 0, 0, 0],
            [0, 0, 0, 0, 0, 0],
            [4, 0, 0, 0, 4, 4]]
   \<and> (\<exists>g'. mergeTiles board_edges = Inr g'
          \<and> set (occupied_cells g') \<subseteq> set (occupied_cells board_edges)
          \<and> occupied g' \<le> occupied board_edges)"
proof -
  have w: "wf_grid board_edges" by code_simp
  have e: "mergeTiles board_edges =
       Inr [[1, 1, 0, 0, 0, 2],
            [0, 0, 0, 0, 0, 2],
            [0, 0, 0, 0, 0, 0],
            [0, 0, 0, 0, 0, 0],
            [0, 0, 0, 0, 0, 0],
            [4, 0, 0, 0, 4, 4]]" by code_simp
  from merge_never_fills[OF w]
  have "\<exists>g'. mergeTiles board_edges = Inr g'
          \<and> set (occupied_cells g') \<subseteq> set (occupied_cells board_edges)
          \<and> occupied g' \<le> occupied board_edges"
    by blast
  with w e show ?thesis by simp
qed

end
